theory Spec2Isabelle
  imports Main "HOL-Library.Word"
begin

unbundle bit_operations_syntax

section \<open>Data model\<close>

text \<open>
  A Go \<open>net.IP\<close> (and a \<open>net.IPMask\<close>) is a byte slice: a reference to a buffer that
  callee and caller share. The store is the list of all buffers allocated so far, a slice
  is the index of its buffer, and \<open>make\<close> appends a zeroed buffer. Slices that overlap
  only in part (sub-slices of one backing array) are outside this model: every slice is a
  whole buffer.
\<close>

type_synonym byte = "8 word"
type_synonym bytes = "byte list"
type_synonym ref = nat
type_synonym store = "bytes list"

text \<open>
  Go panics on an index out of range, the one run-time failure that the statements of
  this code can raise on slices. (The network is passed by value here: a nil
  \<open>*net.IPNet\<close> is not modelled.)
\<close>

datatype panic = IndexOutOfRange

text \<open>The error value built by \<open>fmt.Errorf\<close> in \<open>CompareIPs\<close>; it carries both addresses.\<close>

datatype error = DifferentSizes bytes bytes

text \<open>
  The constants and the package-level variables. The code only reads the variables, so
  they are constants here; \<open>bytes.Equal\<close> on them is equality of the byte lists.
\<close>

definition IPv4Size :: nat where
  "IPv4Size = 4"

definition IPv6Size :: nat where
  "IPv6Size = 16"

definition V4InV6Prefix :: bytes where
  "V4InV6Prefix = [0, 0, 0, 0, 0, 0, 0, 0, 0, 0, 0xff, 0xff]"

definition MaxIPv4 :: bytes where
  "MaxIPv4 = [0xff, 0xff, 0xff, 0xff]"

definition MaxIPv4In6 :: bytes where
  "MaxIPv4In6 = [0, 0, 0, 0, 0, 0, 0, 0, 0, 0, 0xff, 0xff, 0xff, 0xff, 0xff, 0xff]"

definition MaxIPv6 :: bytes where
  "MaxIPv6 = [0xff, 0xff, 0xff, 0xff, 0xff, 0xff, 0xff, 0xff,
              0xff, 0xff, 0xff, 0xff, 0xff, 0xff, 0xff, 0xff]"

section \<open>Built-ins of Go used by the code\<close>

text \<open>
  \<open>make([]byte, size, size)\<close>: a fresh buffer of \<open>size\<close> zero bytes. (The variable
  \<open>size\<close> of the source is \<open>sz\<close> throughout, \<open>size\<close> being a constant of HOL.)
\<close>

definition make_bytes :: "store \<Rightarrow> nat \<Rightarrow> ref \<times> store" where
  "make_bytes h sz = (length h, h @ [replicate sz 0])"

text \<open>\<open>copy(dst, src)\<close>: overwrites the first \<open>min (len dst) (len src)\<close> bytes of \<open>dst\<close>.\<close>

definition copy_bytes :: "store \<Rightarrow> ref \<Rightarrow> ref \<Rightarrow> store" where
  "copy_bytes h dst src =
     (let n = min (length (h ! dst)) (length (h ! src))
      in h[dst := take n (h ! src) @ drop n (h ! dst)])"

text \<open>
  \<open>bytes.Compare\<close> of the Go standard library, after its documentation: the slices are
  compared lexicographically, byte by byte as unsigned values, a proper prefix comes
  first, and the result is \<open>0\<close> if \<open>a == b\<close>, \<open>-1\<close> if \<open>a < b\<close> and \<open>+1\<close> if \<open>a > b\<close>.
\<close>

fun bytes_Compare :: "bytes \<Rightarrow> bytes \<Rightarrow> int" where
  "bytes_Compare [] [] = 0"
| "bytes_Compare [] (y # ys) = - 1"
| "bytes_Compare (x # xs) [] = 1"
| "bytes_Compare (x # xs) (y # ys) =
     (if x < y then - 1 else if y < x then 1 else bytes_Compare xs ys)"

section \<open>The operations of iputils.go\<close>

subsection \<open>CopyIP\<close>

definition CopyIP :: "store \<Rightarrow> ref \<Rightarrow> ref \<times> store" where
  "CopyIP h ip =
     (let sz = length (h ! ip);
          (result, h1) = make_bytes h sz
      in (result, copy_bytes h1 result ip))"

subsection \<open>Next\<close>

text \<open>
  The loop \<open>for i := size - 1; i >= 0; i--\<close>. The first argument is \<open>i + 1\<close>, so that
  \<open>0\<close> is the exit \<open>i < 0\<close>. \<open>ip[i]++\<close> is a byte addition and wraps from 255 to 0.
\<close>

fun Next_loop :: "nat \<Rightarrow> ref \<Rightarrow> store \<Rightarrow> panic + store" where
  "Next_loop 0 ip h = Inr h"
| "Next_loop (Suc i) ip h =
     (if i < length (h ! ip) then
        (let h' = h[ip := (h ! ip)[i := (h ! ip) ! i + 1]]
         in if 0 < (h' ! ip) ! i then Inr h' else Next_loop i ip h')
      else Inl IndexOutOfRange)"

definition Next :: "store \<Rightarrow> ref \<Rightarrow> panic + (bool \<times> store)" where
  "Next h ip =
     (let sz = length (h ! ip)
      in if sz = IPv4Size \<and> h ! ip = MaxIPv4 then Inr (False, h)
         else if sz = IPv6Size \<and> (h ! ip = MaxIPv4In6 \<or> h ! ip = MaxIPv6) then Inr (False, h)
         else (case Next_loop sz ip h of
                 Inl e \<Rightarrow> Inl e
               | Inr h' \<Rightarrow> Inr (True, h')))"

subsection \<open>GetNetworkIPRange\<close>

text \<open>\<open>net.IPNet\<close>: the network number and the mask, two slices.\<close>

record IPNet =
  IP :: ref
  Mask :: ref

text \<open>
  One pass of the body of \<open>for i := range n.IP\<close>: the two assignments, each with the
  bounds checks of its index expressions. A panic ends the loop.
\<close>

definition GetNetworkIPRange_body :: "IPNet \<Rightarrow> ref \<Rightarrow> ref \<Rightarrow> nat \<Rightarrow> panic + store \<Rightarrow> panic + store" where
  "GetNetworkIPRange_body n first last' i acc =
     (case acc of
        Inl e \<Rightarrow> Inl e
      | Inr h \<Rightarrow>
          if i < length (h ! IP n) \<and> i < length (h ! Mask n) \<and> i < length (h ! first) then
            (let h' = h[first := (h ! first)[i := (h ! IP n) ! i AND (h ! Mask n) ! i]]
             in if i < length (h' ! IP n) \<and> i < length (h' ! Mask n) \<and> i < length (h' ! last') then
                  Inr (h'[last' := (h' ! last')[i := (h' ! IP n) ! i OR NOT ((h' ! Mask n) ! i)]])
                else Inl IndexOutOfRange)
          else Inl IndexOutOfRange)"

definition GetNetworkIPRange :: "store \<Rightarrow> IPNet \<Rightarrow> panic + ((ref \<times> ref) \<times> store)" where
  "GetNetworkIPRange h n =
     (let sz = length (h ! IP n);
          (first, h1) = make_bytes h sz;
          (last', h2) = make_bytes h1 sz
      in case fold (GetNetworkIPRange_body n first last') [0..<sz] (Inr h2) of
           Inl e \<Rightarrow> Inl e
         | Inr h3 \<Rightarrow> Inr ((first, last'), h3))"

subsection \<open>CompareIPs\<close>

text \<open>Go returns the pair \<open>(int, error)\<close>; \<open>None\<close> is the \<open>nil\<close> error.\<close>

definition CompareIPs :: "store \<Rightarrow> ref \<Rightarrow> ref \<Rightarrow> int \<times> error option" where
  "CompareIPs h a b =
     (if length (h ! a) \<noteq> length (h ! b) then (0, Some (DifferentSizes (h ! a) (h ! b)))
      else (bytes_Compare (h ! a) (h ! b), None))"

subsection \<open>The range iterator\<close>

text \<open>
  The struct \<open>ipRangeIterator\<close>. Its three fields are slices and are never assigned after
  the construction: only the buffer of \<open>next\<close> is written, through \<open>Next\<close>. (\<open>last\<close> is a
  constant of HOL and \<open>next\<close> a keyword of Isabelle: the fields carry the suffix \<open>_ip\<close>,
  and a variable \<open>last\<close> of the source is \<open>last'\<close>.)
\<close>

record ipRangeIterator =
  first_ip :: ref
  last_ip :: ref
  next_ip :: ref

definition GetIPRangeIterator :: "store \<Rightarrow> ref \<Rightarrow> ref \<Rightarrow> ipRangeIterator \<times> store" where
  "GetIPRangeIterator h first last' =
     (let (c, h') = CopyIP h first
      in (\<lparr>first_ip = first, last_ip = last', next_ip = c\<rparr>, h'))"

text \<open>The method \<open>(iter *ipRangeIterator) Next\<close>. The result of \<open>Next\<close> is dropped.\<close>

definition ipRangeIterator_Next :: "store \<Rightarrow> ipRangeIterator \<Rightarrow> panic + ((ref \<times> bool) \<times> store)" where
  "ipRangeIterator_Next h iter =
     (let (result, h1) = CopyIP h (next_ip iter);
          (check, err) = CompareIPs h1 (next_ip iter) (last_ip iter)
      in if err = None \<and> check \<le> 0 then
           (case Next h1 (next_ip iter) of
              Inl e \<Rightarrow> Inl e
            | Inr (_, h2) \<Rightarrow> Inr ((result, True), h2))
         else Inr ((result, False), h1))"

text \<open>
  A caller that retrieves \<open>k\<close> times in a row and records, for each call, the bytes of the
  returned address and the flag.
\<close>

fun retrieve :: "nat \<Rightarrow> store \<Rightarrow> ipRangeIterator \<Rightarrow> panic + ((bytes \<times> bool) list \<times> store)" where
  "retrieve 0 h iter = Inr ([], h)"
| "retrieve (Suc k) h iter =
     (case ipRangeIterator_Next h iter of
        Inl e \<Rightarrow> Inl e
      | Inr ((r, ok), h') \<Rightarrow>
          (case retrieve k h' iter of
             Inl e \<Rightarrow> Inl e
           | Inr (out, h'') \<Rightarrow> Inr ((h' ! r, ok) # out, h'')))"

section \<open>Reading a buffer as a number\<close>

text \<open>The big-endian unsigned integer that a buffer holds.\<close>

definition be_val :: "bytes \<Rightarrow> nat" where
  "be_val bs = foldl (\<lambda>acc b. acc * 256 + unat b) 0 bs"

section \<open>Basic facts\<close>

lemma CopyIP_eq: "ip < length h \<Longrightarrow> CopyIP h ip = (length h, h @ [h ! ip])"
  by (simp add: CopyIP_def make_bytes_def copy_bytes_def nth_append)

lemma be_val_Nil: "be_val [] = 0"
  by (simp add: be_val_def)

lemma be_val_snoc: "be_val (xs @ [x]) = be_val xs * 256 + unat x"
  by (simp add: be_val_def)

lemma unat_byte_less: "unat (x :: byte) < 256"
  using unsigned_less [of x] by simp

lemma be_val_less: "be_val xs < 256 ^ length xs"
proof (induction xs rule: rev_induct)
  case Nil
  show ?case by (simp add: be_val_Nil)
next
  case (snoc x xs)
  with unat_byte_less [of x] show ?case by (simp add: be_val_snoc)
qed

lemma unat_byte_Suc: "unat (x + 1 :: byte) = (unat x + 1) mod 256"
  by (simp add: unat_word_ariths)

lemma byte_incr_pos: "0 < (x + 1 :: byte) \<Longrightarrow> unat (x + 1) = unat x + 1"
proof -
  assume "0 < x + 1"
  then have "0 < (unat x + 1) mod 256"
    by (simp add: word_less_nat_alt unat_byte_Suc)
  with unat_byte_less [of x] have "unat x + 1 < 256"
    by (cases "unat x + 1 = 256") auto
  then show ?thesis by (simp add: unat_byte_Suc)
qed

lemma byte_incr_zero: "\<not> 0 < (x + 1 :: byte) \<Longrightarrow> x = 255 \<and> x + 1 = 0"
proof -
  assume "\<not> 0 < x + 1"
  then have z: "x + 1 = 0" by (simp add: word_neq_0_conv [symmetric] del: word_neq_0_conv)
  then have "x = 0 - 1" by (metis add_diff_cancel_right')
  then show ?thesis using z by simp
qed

lemma Next_loop_carry:
  assumes "ip < length h" and "h ! ip = pre @ suf"
  shows "\<exists>pre'. Next_loop (length pre) ip h = Inr (h[ip := pre' @ suf])
           \<and> length pre' = length pre
           \<and> be_val pre' = (be_val pre + 1) mod 256 ^ length pre"
  using assms
proof (induction pre arbitrary: h suf rule: rev_induct)
  case Nil
  then show ?case by (auto simp: be_val_Nil list_update_same_conv)
next
  case (snoc x xs)
  let ?i = "length xs"
  let ?h' = "h[ip := xs @ (x + 1) # suf]"
  have upd: "h[ip := (h ! ip)[?i := (h ! ip) ! ?i + 1]] = ?h'"
    using snoc.prems by (simp add: nth_append list_update_append)
  have ilt: "?i < length (h ! ip)" using snoc.prems by simp
  have nth': "(?h' ! ip) ! ?i = x + 1" using snoc.prems by (simp add: nth_append)
  have bound: "be_val xs * 256 + 256 \<le> 256 * 256 ^ ?i"
    using be_val_less [of xs] by simp
  show ?case
  proof (cases "0 < x + 1")
    case True
    have ux: "unat (x + 1) = unat x + 1" by (rule byte_incr_pos [OF True])
    with unat_byte_less [of "x + 1"] have "unat x + 1 < 256" by simp
    with bound have "be_val xs * 256 + unat x + 1 < 256 * 256 ^ ?i" by simp
    then have "be_val (xs @ [x + 1]) = (be_val (xs @ [x]) + 1) mod 256 ^ length (xs @ [x])"
      by (simp add: be_val_snoc ux)
    moreover have "Next_loop (length (xs @ [x])) ip h = Inr (h[ip := (xs @ [x + 1]) @ suf])"
      using ilt upd nth' True by (simp add: Let_def)
    ultimately show ?thesis by (intro exI [of _ "xs @ [x + 1]"]) simp
  next
    case False
    from byte_incr_zero [OF False] have x: "x = 255" and x1: "x + 1 = 0" by simp_all
    have ip': "ip < length ?h'" and cell: "?h' ! ip = xs @ (0 # suf)"
      using snoc.prems x1 by simp_all
    from snoc.IH [OF ip' cell] obtain pre' where
      run: "Next_loop ?i ip ?h' = Inr (?h'[ip := pre' @ 0 # suf])"
      and len: "length pre' = ?i"
      and val: "be_val pre' = (be_val xs + 1) mod 256 ^ ?i"
      by blast
    have "Next_loop (length (xs @ [x])) ip h = Inr (h[ip := (pre' @ [0]) @ suf])"
      using ilt upd nth' False run by (simp add: Let_def)
    moreover have "be_val (pre' @ [0]) = (be_val (xs @ [x]) + 1) mod 256 ^ length (xs @ [x])"
    proof -
      have "be_val (xs @ [x]) + 1 = 256 * (be_val xs + 1)"
        by (simp add: be_val_snoc x)
      then have "(be_val (xs @ [x]) + 1) mod 256 ^ length (xs @ [x])
                   = 256 * ((be_val xs + 1) mod 256 ^ ?i)"
        by (simp only: length_append_singleton power_Suc mult_mod_right)
      moreover have "be_val (pre' @ [0]) = 256 * ((be_val xs + 1) mod 256 ^ ?i)"
        by (simp add: be_val_snoc val)
      ultimately show ?thesis by simp
    qed
    ultimately show ?thesis using len by (intro exI [of _ "pre' @ [0]"]) simp
  qed
qed

lemma be_val_max:
  "be_val xs + 1 = 256 ^ length xs \<Longrightarrow> xs = replicate (length xs) 0xff"
proof (induction xs rule: rev_induct)
  case Nil
  show ?case by simp
next
  case (snoc x xs)
  have eq: "be_val xs * 256 + unat x + 1 = 256 * 256 ^ length xs"
    using snoc.prems by (simp add: be_val_snoc)
  have b1: "be_val xs + 1 \<le> 256 ^ length xs" using be_val_less [of xs] by simp
  have b2: "unat x \<le> 255" using unat_byte_less [of x] by simp
  have "be_val xs + 1 = 256 ^ length xs"
  proof (rule ccontr)
    assume "be_val xs + 1 \<noteq> 256 ^ length xs"
    with b1 have "be_val xs + 2 \<le> 256 ^ length xs" by simp
    then have "256 * (be_val xs + 2) \<le> 256 * 256 ^ length xs" by (rule mult_le_mono2)
    with eq b2 show False by simp
  qed
  moreover from this eq have "unat x = 255" by simp
  then have "unat x = unat (0xff :: byte)" by simp
  then have "x = 0xff" by (simp only: word_unat_eq_iff)
  ultimately have "xs @ [x] = replicate (length xs) 0xff @ [0xff]"
    using snoc.IH by simp
  then show ?case by (simp add: replicate_append_same)
qed

lemma Next_loop_full:
  assumes "ip < length h"
  shows "\<exists>bs. Next_loop (length (h ! ip)) ip h = Inr (h[ip := bs])
           \<and> length bs = length (h ! ip)
           \<and> be_val bs = (be_val (h ! ip) + 1) mod 256 ^ length (h ! ip)"
  using Next_loop_carry [OF assms, of "h ! ip" "[]"] by simp

lemma Next_loop_not_max:
  assumes "ip < length h" and "h ! ip \<noteq> replicate (length (h ! ip)) 0xff"
  shows "\<exists>bs. Next_loop (length (h ! ip)) ip h = Inr (h[ip := bs])
           \<and> length bs = length (h ! ip)
           \<and> be_val bs = be_val (h ! ip) + 1"
proof -
  have "be_val (h ! ip) + 1 \<noteq> 256 ^ length (h ! ip)"
    using assms(2) be_val_max by blast
  with be_val_less [of "h ! ip"] have "be_val (h ! ip) + 1 < 256 ^ length (h ! ip)"
    by simp
  with Next_loop_full [OF assms(1)] show ?thesis by simp
qed

lemma Next_loop_wrap:
  "ip < length h \<Longrightarrow> h ! ip = replicate n 0xff @ suf \<Longrightarrow>
     Next_loop n ip h = Inr (h[ip := replicate n 0 @ suf])"
proof (induction n arbitrary: h suf)
  case 0
  then have "h[ip := suf] = h" by auto
  then show ?case by simp
next
  case (Suc n)
  have cell: "h ! ip = replicate n 0xff @ (0xff # suf)"
    using Suc.prems(2) by (simp add: replicate_app_Cons_same)
  let ?h' = "h[ip := replicate n 0xff @ 0 # suf]"
  have z: "(256 :: byte) = 0" by simp
  have upd: "h[ip := (h ! ip)[n := (h ! ip) ! n + 1]] = ?h'"
    using Suc.prems(1) by (simp add: cell nth_append list_update_append z)
  have "Next_loop n ip ?h' = Inr (?h'[ip := replicate n 0 @ 0 # suf])"
    using Suc.prems(1) by (intro Suc.IH) simp_all
  then show ?case using Suc.prems(1) upd
    by (simp add: cell Let_def nth_append replicate_app_Cons_same)
qed

lemma replicate_unfold:
  "replicate 4 x = [x, x, x, x]"
  "replicate 6 x = [x, x, x, x, x, x]"
  "replicate 10 x = [x, x, x, x, x, x, x, x, x, x]"
  "replicate 16 x = [x, x, x, x, x, x, x, x, x, x, x, x, x, x, x, x]"
  by (simp_all add: numeral_eq_Suc)

lemma max_forms:
  "MaxIPv4 = replicate 4 0xff"
  "MaxIPv6 = replicate 16 0xff"
  "MaxIPv4In6 = replicate 10 0 @ replicate 6 0xff"
  by (simp_all add: MaxIPv4_def MaxIPv6_def MaxIPv4In6_def replicate_unfold)

section \<open>Next\<close>

text \<open>
  Claim C1. A 4-byte buffer that is not all-0xFF, and a 16-byte buffer that is neither
  all-0xFF nor the IPv4-mapped all-0xFF form (ten zero bytes, then six 0xFF): \<open>Next\<close>
  returns true and has written, into the same buffer and nowhere else, the bytes of the
  same width whose big-endian reading is one more than the input's. A buffer equal to
  one of the three maxima: \<open>Next\<close> returns false and the store is unchanged.
\<close>

theorem Next_successor:
  assumes "ip < length h"
  shows "(length (h ! ip) = 4 \<and> h ! ip \<noteq> replicate 4 0xff
          \<or> length (h ! ip) = 16 \<and> h ! ip \<noteq> replicate 16 0xff
              \<and> h ! ip \<noteq> replicate 10 0 @ replicate 6 0xff
          \<longrightarrow> (\<exists>bs. Next h ip = Inr (True, h[ip := bs])
                 \<and> length bs = length (h ! ip)
                 \<and> be_val bs = be_val (h ! ip) + 1))
       \<and> (h ! ip = replicate 4 0xff \<or> h ! ip = replicate 16 0xff
          \<or> h ! ip = replicate 10 0 @ replicate 6 0xff
          \<longrightarrow> Next h ip = Inr (False, h))"
proof (intro conjI impI)
  assume a: "length (h ! ip) = 4 \<and> h ! ip \<noteq> replicate 4 0xff
          \<or> length (h ! ip) = 16 \<and> h ! ip \<noteq> replicate 16 0xff
              \<and> h ! ip \<noteq> replicate 10 0 @ replicate 6 0xff"
  then have nm: "h ! ip \<noteq> replicate (length (h ! ip)) 0xff" by auto
  from a have guard: "\<not> (length (h ! ip) = IPv4Size \<and> h ! ip = MaxIPv4)"
    "\<not> (length (h ! ip) = IPv6Size \<and> (h ! ip = MaxIPv4In6 \<or> h ! ip = MaxIPv6))"
    by (auto simp: max_forms IPv4Size_def IPv6Size_def)
  from Next_loop_not_max [OF assms nm] obtain bs where
    "Next_loop (length (h ! ip)) ip h = Inr (h[ip := bs])"
    "length bs = length (h ! ip)" "be_val bs = be_val (h ! ip) + 1"
    by blast
  with guard show "\<exists>bs. Next h ip = Inr (True, h[ip := bs])
                 \<and> length bs = length (h ! ip)
                 \<and> be_val bs = be_val (h ! ip) + 1"
    by (auto simp: Next_def Let_def)
next
  assume "h ! ip = replicate 4 0xff \<or> h ! ip = replicate 16 0xff
          \<or> h ! ip = replicate 10 0 @ replicate 6 0xff"
  then show "Next h ip = Inr (False, h)"
    by (auto simp: Next_def Let_def max_forms IPv4Size_def IPv6Size_def)
qed

theorem Next_successor_witness:
  "(\<exists>bs. Next [[192, 168, 0, 255]] 0 = Inr (True, [[192, 168, 0, 255]][0 := bs])
        \<and> length bs = 4 \<and> be_val bs = be_val [192, 168, 0, 255] + 1)
   \<and> Next [[1], replicate 4 0xff] 1 = Inr (False, [[1], replicate 4 0xff])"
  using Next_successor [of 0 "[[192, 168, 0, 255]]"]
    Next_successor [of 1 "[[1], replicate 4 0xff]"]
  by (simp add: replicate_unfold) (simp add: numeral_eq_Suc)

text \<open>
  Claim C8. A buffer whose width is neither 4 nor 16 and whose bytes are all 0xFF:
  \<open>Next\<close> checks no maximum, the carry runs through every byte, the buffer is left
  all-zero, the call returns true and does not panic.
\<close>

theorem Next_wraps_other_width:
  assumes "ip < length h" and "h ! ip = replicate n 0xff" and "n \<noteq> 4" and "n \<noteq> 16"
  shows "Next h ip = Inr (True, h[ip := replicate n 0])"
proof -
  have "Next_loop n ip h = Inr (h[ip := replicate n 0])"
    using Next_loop_wrap [OF assms(1), of n "[]"] assms(2) by simp
  then show ?thesis using assms
    by (simp add: Next_def Let_def IPv4Size_def IPv6Size_def)
qed

theorem Next_wraps_other_width_witness:
  "Next [[0xff, 0xff, 0xff]] 0 = Inr (True, [[0, 0, 0]])"
  using Next_wraps_other_width [of 0 "[[0xff, 0xff, 0xff]]" 3]
  by (simp add: numeral_3_eq_3)

section \<open>CompareIPs\<close>

lemma foldl_be_shift:
  "foldl (\<lambda>acc b. acc * 256 + unat (b :: byte)) a xs
     = a * 256 ^ length xs + foldl (\<lambda>acc b. acc * 256 + unat b) 0 xs"
proof (induction xs rule: rev_induct)
  case Nil
  show ?case by simp
next
  case (snoc x xs)
  then show ?case by (simp add: algebra_simps)
qed

lemma be_val_Cons: "be_val (x # xs) = unat x * 256 ^ length xs + be_val xs"
  using foldl_be_shift [of "unat x" xs] by (simp add: be_val_def)

lemma be_val_Cons_less:
  assumes "unat x < unat y" and "length xs = length ys"
  shows "be_val (x # xs) < be_val (y # ys)"
proof -
  have "be_val (x # xs) < unat x * 256 ^ length xs + 256 ^ length xs"
    using be_val_less [of xs] by (simp add: be_val_Cons)
  also have "\<dots> = (unat x + 1) * 256 ^ length xs" by simp
  also have "\<dots> \<le> unat y * 256 ^ length xs"
    using assms(1) by (intro mult_le_mono1) simp
  also have "\<dots> \<le> be_val (y # ys)"
    using assms(2) by (simp add: be_val_Cons)
  finally show ?thesis .
qed

lemma bytes_Compare_be_val:
  "length a = length b \<Longrightarrow>
     bytes_Compare a b = (if be_val a < be_val b then - 1 else if be_val a = be_val b then 0 else 1)"
proof (induction a b rule: list_induct2)
  case Nil
  show ?case by (simp add: be_val_Nil)
next
  case (Cons x xs y ys)
  consider (lt) "unat x < unat y" | (gt) "unat y < unat x" | (eq) "x = y"
    by (metis linorder_neqE_nat word_unat_eq_iff)
  then show ?case
  proof cases
    case lt
    with be_val_Cons_less [OF lt Cons.hyps] show ?thesis
      by (simp add: word_less_nat_alt)
  next
    case gt
    with be_val_Cons_less [OF gt Cons.hyps [symmetric]] show ?thesis
      by (simp add: word_less_nat_alt)
  next
    case eq
    with Cons show ?thesis by (simp add: be_val_Cons)
  qed
qed

lemma bytes_Compare_zero: "length a = length b \<Longrightarrow> bytes_Compare a b = 0 \<longleftrightarrow> a = b"
  by (induction a b rule: list_induct2) auto

lemma CompareIPs_same_width:
  "length (h ! a) = length (h ! b) \<Longrightarrow> CompareIPs h a b = (bytes_Compare (h ! a) (h ! b), None)"
  by (simp add: CompareIPs_def)

text \<open>
  Claim C4. On addresses of equal width \<open>CompareIPs\<close> succeeds and its result is
  negative, zero or positive exactly as the big-endian unsigned reading of the first
  buffer is below, equal to or above that of the second. It is a total order:
  the result is zero exactly for equal buffers, comparing an address with itself gives
  zero, swapping the arguments negates the result, and the order is transitive (strictly
  and weakly).
\<close>

theorem CompareIPs_total_order:
  assumes "length (h ! a) = length (h ! b)" and "length (h ! b) = length (h ! c)"
  shows "snd (CompareIPs h a b) = None
       \<and> (fst (CompareIPs h a b) < 0 \<longleftrightarrow> be_val (h ! a) < be_val (h ! b))
       \<and> (fst (CompareIPs h a b) = 0 \<longleftrightarrow> be_val (h ! a) = be_val (h ! b))
       \<and> (0 < fst (CompareIPs h a b) \<longleftrightarrow> be_val (h ! b) < be_val (h ! a))
       \<and> (fst (CompareIPs h a b) = 0 \<longleftrightarrow> h ! a = h ! b)
       \<and> CompareIPs h a a = (0, None)
       \<and> fst (CompareIPs h b a) = - fst (CompareIPs h a b)
       \<and> (fst (CompareIPs h a b) < 0 \<and> fst (CompareIPs h b c) < 0
            \<longrightarrow> fst (CompareIPs h a c) < 0)
       \<and> (fst (CompareIPs h a b) \<le> 0 \<and> fst (CompareIPs h b c) \<le> 0
            \<longrightarrow> fst (CompareIPs h a c) \<le> 0)"
proof -
  let ?sign = "\<lambda>x y. if be_val x < be_val y then - 1 else if be_val x = be_val y then 0 else (1 :: int)"
  have ab: "CompareIPs h a b = (?sign (h ! a) (h ! b), None)"
    using assms(1) bytes_Compare_be_val [of "h ! a" "h ! b"] by (simp add: CompareIPs_def)
  have ba: "CompareIPs h b a = (?sign (h ! b) (h ! a), None)"
    using assms(1) bytes_Compare_be_val [of "h ! b" "h ! a"] by (simp add: CompareIPs_def)
  have bc: "CompareIPs h b c = (?sign (h ! b) (h ! c), None)"
    using assms(2) bytes_Compare_be_val [of "h ! b" "h ! c"] by (simp add: CompareIPs_def)
  have ac: "CompareIPs h a c = (?sign (h ! a) (h ! c), None)"
    using assms bytes_Compare_be_val [of "h ! a" "h ! c"] by (simp add: CompareIPs_def)
  have 1: "snd (CompareIPs h a b) = None" by (simp add: ab)
  have 2: "fst (CompareIPs h a b) < 0 \<longleftrightarrow> be_val (h ! a) < be_val (h ! b)"
    by (simp add: ab)
  have 3: "fst (CompareIPs h a b) = 0 \<longleftrightarrow> be_val (h ! a) = be_val (h ! b)"
    by (simp add: ab)
  have 4: "0 < fst (CompareIPs h a b) \<longleftrightarrow> be_val (h ! b) < be_val (h ! a)"
    by (simp add: ab; linarith)
  have 5: "fst (CompareIPs h a b) = 0 \<longleftrightarrow> h ! a = h ! b"
    using assms(1) by (simp add: CompareIPs_def bytes_Compare_zero)
  have 6: "CompareIPs h a a = (0, None)"
    by (simp add: CompareIPs_def bytes_Compare_zero)
  have 7: "fst (CompareIPs h b a) = - fst (CompareIPs h a b)"
    by (simp add: ab ba; linarith)
  have 8: "fst (CompareIPs h a b) < 0 \<and> fst (CompareIPs h b c) < 0
            \<longrightarrow> fst (CompareIPs h a c) < 0"
    by (simp add: ab bc ac; linarith)
  have 9: "fst (CompareIPs h a b) \<le> 0 \<and> fst (CompareIPs h b c) \<le> 0
            \<longrightarrow> fst (CompareIPs h a c) \<le> 0"
    by (simp add: ab bc ac; linarith)
  from 1 2 3 4 5 6 7 8 9 show ?thesis by blast
qed

theorem CompareIPs_total_order_witness:
  "fst (CompareIPs [[192, 168, 0, 0], [192, 168, 0, 1], [192, 168, 1, 0]] 0 1) < 0
   \<and> fst (CompareIPs [[192, 168, 0, 0], [192, 168, 0, 1], [192, 168, 1, 0]] 1 2) < 0
   \<and> fst (CompareIPs [[192, 168, 0, 0], [192, 168, 0, 1], [192, 168, 1, 0]] 0 2) < 0
   \<and> be_val [192, 168, 0, 0] < be_val [192, 168, 0, 1]"
  using CompareIPs_total_order [of "[[192, 168, 0, 0], [192, 168, 0, 1], [192, 168, 1, 0]]" 0 1 2]
  by (simp add: CompareIPs_def)

text \<open>
  Claim C5. \<open>CompareIPs\<close> returns an error exactly when the two buffers differ in
  length, and then the number returned beside the error is the constant 0, whatever
  the bytes are: nothing has been compared.
\<close>

theorem CompareIPs_error_iff:
  "(snd (CompareIPs h a b) \<noteq> None \<longleftrightarrow> length (h ! a) \<noteq> length (h ! b))
   \<and> (length (h ! a) \<noteq> length (h ! b)
        \<longrightarrow> CompareIPs h a b = (0, Some (DifferentSizes (h ! a) (h ! b))))"
  by (simp add: CompareIPs_def)

theorem CompareIPs_error_iff_witness:
  "CompareIPs [[255, 255, 255, 255], MaxIPv4In6] 0 1
     = (0, Some (DifferentSizes [255, 255, 255, 255] MaxIPv4In6))"
  using CompareIPs_error_iff [of "[[255, 255, 255, 255], MaxIPv4In6]" 0 1]
  by (simp add: MaxIPv4In6_def)

lemma bytes_Compare_three: "bytes_Compare a b = - 1 \<or> bytes_Compare a b = 0 \<or> bytes_Compare a b = 1"
  by (induction a b rule: bytes_Compare.induct) auto

text \<open>
  Claim C10. On addresses of equal width the result of \<open>CompareIPs\<close> is one of
  \<open>-1\<close>, \<open>0\<close> and \<open>+1\<close>, with no error.
\<close>

theorem CompareIPs_three_values:
  assumes "length (h ! a) = length (h ! b)"
  shows "CompareIPs h a b = (- 1, None) \<or> CompareIPs h a b = (0, None)
       \<or> CompareIPs h a b = (1, None)"
  using bytes_Compare_three [of "h ! a" "h ! b"] assms by (auto simp: CompareIPs_def)

theorem CompareIPs_three_values_witness:
  "CompareIPs [[192, 168, 0, 1], [192, 168, 0, 0]] 0 1 = (1, None)"
  using CompareIPs_three_values [of "[[192, 168, 0, 1], [192, 168, 0, 0]]" 0 1]
  by (simp add: CompareIPs_def)

section \<open>GetNetworkIPRange\<close>

lemma fold_upt_Suc: "fold f [0..<Suc k] s = f k (fold f [0..<k] s)"
  by simp

lemma update_first_fresh: "(h @ [a, b])[length h := x] = h @ [x, b]"
  by (simp add: list_update_append)

lemma update_second_fresh: "(h @ [a, b])[Suc (length h) := x] = h @ [a, x]"
  by (simp add: list_update_append)

lemma map_upt_update:
  "k < sz \<Longrightarrow> (map (\<lambda>j. if j < k then f j else z) [0..<sz])[k := f k]
      = map (\<lambda>j. if j < Suc k then f j else z) [0..<sz]"
  by (auto simp: list_eq_iff_nth_eq nth_list_update less_Suc_eq)

lemma GetNetworkIPRange_loop:
  assumes ip: "IP n < length h" and mask: "Mask n < length h"
    and len: "length (h ! IP n) \<le> length (h ! Mask n)"
    and k: "k \<le> length (h ! IP n)"
  shows "fold (GetNetworkIPRange_body n (length h) (Suc (length h))) [0..<k]
           (Inr (h @ [replicate (length (h ! IP n)) 0, replicate (length (h ! IP n)) 0]))
         = Inr (h @ [map (\<lambda>j. if j < k then (h ! IP n) ! j AND (h ! Mask n) ! j else 0)
                        [0..<length (h ! IP n)],
                     map (\<lambda>j. if j < k then (h ! IP n) ! j OR NOT ((h ! Mask n) ! j) else 0)
                        [0..<length (h ! IP n)]])"
  using k
proof (induction k)
  case 0
  show ?case by (simp add: map_replicate_const)
next
  case (Suc k)
  let ?sz = "length (h ! IP n)"
  let ?F = "\<lambda>k. map (\<lambda>j. if j < k then (h ! IP n) ! j AND (h ! Mask n) ! j else 0) [0..<?sz]"
  let ?L = "\<lambda>k. map (\<lambda>j. if j < k then (h ! IP n) ! j OR NOT ((h ! Mask n) ! j) else 0) [0..<?sz]"
  have k: "k < ?sz" and km: "k < length (h ! Mask n)" using Suc.prems len by simp_all
  have prev: "fold (GetNetworkIPRange_body n (length h) (Suc (length h))) [0..<k]
           (Inr (h @ [replicate ?sz 0, replicate ?sz 0])) = Inr (h @ [?F k, ?L k])"
    using Suc by simp
  have rd: "\<And>a b. (h @ [a, b]) ! IP n = h ! IP n" "\<And>a b. (h @ [a, b]) ! Mask n = h ! Mask n"
    using ip mask by (simp_all add: nth_append)
  have fr: "\<And>a b. (h @ [a, b]) ! length h = a" "\<And>a b. (h @ [a, b]) ! Suc (length h) = b"
    by (simp_all add: nth_append)
  have F: "(?F k)[k := (h ! IP n) ! k AND (h ! Mask n) ! k] = ?F (Suc k)"
    using k by (rule map_upt_update)
  have L: "(?L k)[k := (h ! IP n) ! k OR NOT ((h ! Mask n) ! k)] = ?L (Suc k)"
    using k by (rule map_upt_update)
  have "GetNetworkIPRange_body n (length h) (Suc (length h)) k (Inr (h @ [?F k, ?L k]))
          = Inr (h @ [?F (Suc k), ?L (Suc k)])"
    unfolding GetNetworkIPRange_body_def Let_def
    using k km
    by (simp only: sum.case rd fr update_first_fresh update_second_fresh F L
        length_map length_upt diff_zero if_True simp_thms)
  then show ?case
    by (simp only: fold_upt_Suc prev)
qed

lemma GetNetworkIPRange_eq:
  assumes "IP n < length h" and "Mask n < length h"
    and "length (h ! IP n) \<le> length (h ! Mask n)"
  shows "GetNetworkIPRange h n =
           Inr ((length h, Suc (length h)),
                h @ [map (\<lambda>j. (h ! IP n) ! j AND (h ! Mask n) ! j) [0..<length (h ! IP n)],
                     map (\<lambda>j. (h ! IP n) ! j OR NOT ((h ! Mask n) ! j)) [0..<length (h ! IP n)]])"
proof -
  have "\<And>f. map (\<lambda>j. if j < length (h ! IP n) then f j else (0 :: byte)) [0..<length (h ! IP n)]
          = map f [0..<length (h ! IP n)]"
    by simp
  with GetNetworkIPRange_loop [OF assms order_refl] show ?thesis
    by (simp add: GetNetworkIPRange_def make_bytes_def Let_def)
qed

text \<open>
  Claim C6. For a network whose address and mask have equal width,
  \<open>GetNetworkIPRange\<close> returns two buffers of that width with, at every byte position
  \<open>i\<close>, \<open>first[i] = address[i] AND mask[i]\<close> and
  \<open>last[i] = address[i] OR (NOT mask[i])\<close>. Both buffers are new: their references
  are distinct, were not in the store before the call and are in it after; every buffer
  that was in the store before, the address and the mask among them, is unchanged.
\<close>

theorem GetNetworkIPRange_bytes:
  assumes "IP n < length h" and "Mask n < length h"
    and "length (h ! IP n) = length (h ! Mask n)"
  shows "\<exists>first last' h'.
           GetNetworkIPRange h n = Inr ((first, last'), h')
         \<and> length (h' ! first) = length (h ! IP n)
         \<and> length (h' ! last') = length (h ! IP n)
         \<and> (\<forall>i < length (h ! IP n).
               (h' ! first) ! i = (h ! IP n) ! i AND (h ! Mask n) ! i
             \<and> (h' ! last') ! i = (h ! IP n) ! i OR NOT ((h ! Mask n) ! i))
         \<and> length h \<le> first \<and> first < length h'
         \<and> length h \<le> last' \<and> last' < length h'
         \<and> first \<noteq> last'
         \<and> (\<forall>r < length h. h' ! r = h ! r)"
proof -
  have le: "length (h ! IP n) \<le> length (h ! Mask n)" using assms(3) by simp
  show ?thesis
    unfolding GetNetworkIPRange_eq [OF assms(1,2) le]
    by (intro exI conjI) (rule refl, simp_all add: nth_append)
qed

theorem GetNetworkIPRange_bytes_witness:
  "GetNetworkIPRange [[192, 168, 216, 200], [255, 255, 255, 240]] \<lparr>IP = 0, Mask = 1\<rparr>
     = Inr ((2, 3), [[192, 168, 216, 200], [255, 255, 255, 240],
                     [192, 168, 216, 192], [192, 168, 216, 207]])"
  using GetNetworkIPRange_bytes [of "\<lparr>IP = 0, Mask = 1\<rparr>" "[[192, 168, 216, 200], [255, 255, 255, 240]]"]
  by (simp add: GetNetworkIPRange_eq upt_rec)

text \<open>
  Claim C9. For an address and a mask of equal width, whatever the bits of the mask
  are (no contiguity is assumed), the returned buffers satisfy \<open>first[i] \<le> last[i]\<close>
  at every byte position.
\<close>

theorem GetNetworkIPRange_first_le_last:
  assumes "IP n < length h" and "Mask n < length h"
    and "length (h ! IP n) = length (h ! Mask n)"
  shows "\<exists>first last' h'.
           GetNetworkIPRange h n = Inr ((first, last'), h')
         \<and> (\<forall>i < length (h ! IP n). (h' ! first) ! i \<le> (h' ! last') ! i)"
proof -
  have le: "length (h ! IP n) \<le> length (h ! Mask n)" using assms(3) by simp
  have "\<And>a m :: byte. a AND m \<le> a OR NOT m"
    by (rule order_trans [OF word_and_le2 le_word_or2])
  then show ?thesis
    unfolding GetNetworkIPRange_eq [OF assms(1,2) le]
    by (intro exI conjI) (rule refl, simp add: nth_append)
qed

theorem GetNetworkIPRange_first_le_last_witness:
  "GetNetworkIPRange [[10, 20, 30, 40], [255, 0, 90, 7]] \<lparr>IP = 0, Mask = 1\<rparr>
     = Inr ((2, 3), [[10, 20, 30, 40], [255, 0, 90, 7], [10, 0, 26, 0], [10, 255, 191, 248]])"
  using GetNetworkIPRange_first_le_last [of "\<lparr>IP = 0, Mask = 1\<rparr>" "[[10, 20, 30, 40], [255, 0, 90, 7]]"]
  by (simp add: GetNetworkIPRange_eq upt_rec)

section \<open>The range iterator\<close>

lemma CompareIPs_append:
  "a < length h \<Longrightarrow> b < length h \<Longrightarrow> CompareIPs (h @ hs) a b = CompareIPs h a b"
  by (simp add: CompareIPs_def nth_append)

lemma ipRangeIterator_Next_exhausted:
  assumes "next_ip iter < length h" and "last_ip iter < length h"
    and "\<not> (snd (CompareIPs h (next_ip iter) (last_ip iter)) = None
             \<and> fst (CompareIPs h (next_ip iter) (last_ip iter)) \<le> 0)"
  shows "ipRangeIterator_Next h iter = Inr ((length h, False), h @ [h ! next_ip iter])"
  using assms
  by (auto simp add: ipRangeIterator_Next_def CopyIP_eq CompareIPs_append split: prod.split)

lemma retrieve_exhausted:
  assumes "next_ip iter < length h" and "last_ip iter < length h"
    and "\<not> (snd (CompareIPs h (next_ip iter) (last_ip iter)) = None
             \<and> fst (CompareIPs h (next_ip iter) (last_ip iter)) \<le> 0)"
  shows "retrieve k h iter
           = Inr (replicate k (h ! next_ip iter, False), h @ replicate k (h ! next_ip iter))"
  using assms
proof (induction k arbitrary: h)
  case 0
  show ?case by simp
next
  case (Suc k)
  let ?c = "h ! next_ip iter"
  let ?h' = "h @ [?c]"
  have step: "ipRangeIterator_Next h iter = Inr ((length h, False), ?h')"
    using Suc.prems by (rule ipRangeIterator_Next_exhausted)
  have n': "next_ip iter < length ?h'" and l': "last_ip iter < length ?h'"
    using Suc.prems by simp_all
  have c': "?h' ! next_ip iter = ?c" using Suc.prems(1) by (simp add: nth_append)
  have ex': "\<not> (snd (CompareIPs ?h' (next_ip iter) (last_ip iter)) = None
             \<and> fst (CompareIPs ?h' (next_ip iter) (last_ip iter)) \<le> 0)"
    using Suc.prems by (simp add: CompareIPs_append)
  have rest: "retrieve k ?h' iter = Inr (replicate k (?c, False), ?h' @ replicate k ?c)"
    using Suc.IH [OF n' l' ex'] by (simp only: c')
  show ?case
    by (simp add: step rest)
qed

lemma GetIPRangeIterator_eq:
  "first < length h \<Longrightarrow>
     GetIPRangeIterator h first last'
       = (\<lparr>first_ip = first, last_ip = last', next_ip = length h\<rparr>, h @ [h ! first])"
  by (simp add: GetIPRangeIterator_def CopyIP_eq)

text \<open>
  Claim C7. Exhaustion is terminal. An iterator whose cursor compares above \<open>last\<close>:
  each of \<open>k\<close> retrievals in a row returns the bytes of the cursor with the flag false,
  and the store after them is the store before them followed by the \<open>k\<close> copies
  returned, so that no buffer of the iterator (nor any other) has been written. The same
  holds from the first retrieval on for an iterator constructed with \<open>first\<close> above
  \<open>last\<close>: every retrieval returns the bytes of \<open>first\<close> and false.
\<close>

theorem exhaustion_terminal:
  "(next_ip iter < length h \<and> last_ip iter < length h
      \<and> snd (CompareIPs h (next_ip iter) (last_ip iter)) = None
      \<and> 0 < fst (CompareIPs h (next_ip iter) (last_ip iter))
    \<longrightarrow> retrieve k h iter
          = Inr (replicate k (h ! next_ip iter, False), h @ replicate k (h ! next_ip iter)))
   \<and> (first < length h \<and> last' < length h
      \<and> snd (CompareIPs h first last') = None
      \<and> 0 < fst (CompareIPs h first last')
    \<longrightarrow> (case GetIPRangeIterator h first last' of
           (iter0, h0) \<Rightarrow>
             retrieve k h0 iter0
               = Inr (replicate k (h ! first, False), h0 @ replicate k (h ! first))))"
proof (intro conjI impI)
  assume "next_ip iter < length h \<and> last_ip iter < length h
      \<and> snd (CompareIPs h (next_ip iter) (last_ip iter)) = None
      \<and> 0 < fst (CompareIPs h (next_ip iter) (last_ip iter))"
  then show "retrieve k h iter
          = Inr (replicate k (h ! next_ip iter, False), h @ replicate k (h ! next_ip iter))"
    by (intro retrieve_exhausted) simp_all
next
  assume a: "first < length h \<and> last' < length h
      \<and> snd (CompareIPs h first last') = None
      \<and> 0 < fst (CompareIPs h first last')"
  let ?iter = "\<lparr>first_ip = first, last_ip = last', next_ip = length h\<rparr>"
  let ?h0 = "h @ [h ! first]"
  have same: "CompareIPs ?h0 (length h) last' = CompareIPs h first last'"
    using a by (simp add: CompareIPs_def nth_append)
  have "retrieve k ?h0 ?iter
          = Inr (replicate k (?h0 ! next_ip ?iter, False), ?h0 @ replicate k (?h0 ! next_ip ?iter))"
    using a by (intro retrieve_exhausted) (simp_all add: same)
  then show "case GetIPRangeIterator h first last' of
           (iter0, h0) \<Rightarrow>
             retrieve k h0 iter0
               = Inr (replicate k (h ! first, False), h0 @ replicate k (h ! first))"
    using a by (simp add: GetIPRangeIterator_eq)
qed

theorem exhaustion_terminal_witness:
  "(case GetIPRangeIterator [[192, 168, 0, 20], [192, 168, 0, 10]] 0 1 of
      (iter0, h0) \<Rightarrow> retrieve 3 h0 iter0
        = Inr (replicate 3 ([192, 168, 0, 20], False), h0 @ replicate 3 [192, 168, 0, 20]))
   \<and> retrieve 2 [[192, 168, 0, 20], [192, 168, 0, 10], [192, 168, 0, 11]]
        \<lparr>first_ip = 0, last_ip = 1, next_ip = 2\<rparr>
      = Inr (replicate 2 ([192, 168, 0, 11], False),
             [[192, 168, 0, 20], [192, 168, 0, 10], [192, 168, 0, 11]] @ replicate 2 [192, 168, 0, 11])"
  using exhaustion_terminal [of "\<lparr>first_ip = 0, last_ip = 1, next_ip = 2\<rparr>"
      "[[192, 168, 0, 20], [192, 168, 0, 10], [192, 168, 0, 11]]" 2 0 1]
    exhaustion_terminal [of "\<lparr>first_ip = 0, last_ip = 1, next_ip = 2\<rparr>"
      "[[192, 168, 0, 20], [192, 168, 0, 10]]" 3 0 1]
  by (simp add: CompareIPs_def)

subsection \<open>One retrieval at a cursor within the range\<close>

lemma be_val_replicate_ff: "be_val (replicate n 0xff) + 1 = 256 ^ n"
proof (induction n)
  case 0
  show ?case by (simp add: be_val_Nil)
next
  case (Suc n)
  have "be_val (replicate (Suc n) 0xff) = be_val (replicate n 0xff) * 256 + 255"
    using be_val_snoc [of "replicate n 0xff" "0xff"] by (simp add: replicate_append_same)
  with Suc show ?case by simp
qed

lemma Next_advance:
  assumes "ip < length h" and "h ! ip \<noteq> replicate (length (h ! ip)) 0xff"
    and "h ! ip \<noteq> MaxIPv4In6"
  shows "\<exists>bs. Next h ip = Inr (True, h[ip := bs])
           \<and> length bs = length (h ! ip)
           \<and> be_val bs = be_val (h ! ip) + 1"
proof -
  have guard: "\<not> (length (h ! ip) = IPv4Size \<and> h ! ip = MaxIPv4)"
    "\<not> (length (h ! ip) = IPv6Size \<and> (h ! ip = MaxIPv4In6 \<or> h ! ip = MaxIPv6))"
    using assms(2,3) by (auto simp: max_forms IPv4Size_def IPv6Size_def)
  from Next_loop_not_max [OF assms(1,2)] obtain bs where
    "Next_loop (length (h ! ip)) ip h = Inr (h[ip := bs])"
    "length bs = length (h ! ip)" "be_val bs = be_val (h ! ip) + 1"
    by blast
  with guard show ?thesis by (auto simp: Next_def Let_def)
qed

lemma bytes_Compare_le:
  "length a = length b \<Longrightarrow> bytes_Compare a b \<le> 0 \<longleftrightarrow> be_val a \<le> be_val b"
  by (simp add: bytes_Compare_be_val)

lemma CompareIPs_same_width_append:
  assumes "a < length h" and "b < length h" and "length (h ! a) = length (h ! b)"
  shows "CompareIPs (h @ hs) a b = (bytes_Compare (h ! a) (h ! b), None)"
proof -
  have "CompareIPs (h @ hs) a b = CompareIPs h a b"
    using assms(1,2) by (rule CompareIPs_append)
  also have "\<dots> = (bytes_Compare (h ! a) (h ! b), None)"
    using assms(3) by (rule CompareIPs_same_width)
  finally show ?thesis .
qed

lemma ipRangeIterator_Next_advance:
  assumes nx: "next_ip iter < length h" and la: "last_ip iter < length h"
    and len: "length (h ! next_ip iter) = length (h ! last_ip iter)"
    and le: "be_val (h ! next_ip iter) \<le> be_val (h ! last_ip iter)"
    and nm: "h ! next_ip iter \<noteq> replicate (length (h ! next_ip iter)) 0xff"
      "h ! next_ip iter \<noteq> MaxIPv4In6"
  shows "\<exists>bs. ipRangeIterator_Next h iter
                = Inr ((length h, True), (h @ [h ! next_ip iter])[next_ip iter := bs])
           \<and> length bs = length (h ! next_ip iter)
           \<and> be_val bs = be_val (h ! next_ip iter) + 1"
proof -
  let ?h1 = "h @ [h ! next_ip iter]"
  have cell: "?h1 ! next_ip iter = h ! next_ip iter" using nx by (simp add: nth_append)
  have nx1: "next_ip iter < length ?h1" using nx by simp
  from Next_advance [OF nx1] nm obtain bs where
    bs: "Next ?h1 (next_ip iter) = Inr (True, ?h1[next_ip iter := bs])"
      "length bs = length (h ! next_ip iter)" "be_val bs = be_val (h ! next_ip iter) + 1"
    unfolding cell by blast
  have "CompareIPs ?h1 (next_ip iter) (last_ip iter)
          = (bytes_Compare (h ! next_ip iter) (h ! last_ip iter), None)"
    using nx la len by (simp add: CompareIPs_same_width_append)
  moreover have "bytes_Compare (h ! next_ip iter) (h ! last_ip iter) \<le> 0"
    using le len by (simp add: bytes_Compare_le)
  ultimately have "ipRangeIterator_Next h iter = Inr ((length h, True), ?h1[next_ip iter := bs])"
    using nx bs(1) by (simp add: ipRangeIterator_Next_def CopyIP_eq)
  with bs(2,3) show ?thesis by blast
qed

text \<open>
  A cursor that holds one of the three maxima and is not above \<open>last\<close>: \<open>Next\<close>
  answers false and leaves the cursor, the iterator drops the answer, and every retrieval
  returns the same address with the flag true.
\<close>

lemma ipRangeIterator_Next_stuck:
  assumes nx: "next_ip iter < length h" and la: "last_ip iter < length h"
    and len: "length (h ! next_ip iter) = length (h ! last_ip iter)"
    and le: "be_val (h ! next_ip iter) \<le> be_val (h ! last_ip iter)"
    and mx: "h ! next_ip iter = MaxIPv4 \<or> h ! next_ip iter = MaxIPv4In6
             \<or> h ! next_ip iter = MaxIPv6"
  shows "ipRangeIterator_Next h iter = Inr ((length h, True), h @ [h ! next_ip iter])"
proof -
  let ?h1 = "h @ [h ! next_ip iter]"
  have cell: "?h1 ! next_ip iter = h ! next_ip iter" using nx by (simp add: nth_append)
  have "Next ?h1 (next_ip iter) = Inr (False, ?h1)"
    using mx unfolding Next_def Let_def cell
    by (auto simp: IPv4Size_def IPv6Size_def MaxIPv4_def MaxIPv4In6_def MaxIPv6_def)
  moreover have "CompareIPs ?h1 (next_ip iter) (last_ip iter)
          = (bytes_Compare (h ! next_ip iter) (h ! last_ip iter), None)"
    using nx la len by (simp add: CompareIPs_same_width_append)
  moreover have "bytes_Compare (h ! next_ip iter) (h ! last_ip iter) \<le> 0"
    using le len by (simp add: bytes_Compare_le)
  ultimately show ?thesis
    using nx by (simp add: ipRangeIterator_Next_def CopyIP_eq)
qed

lemma retrieve_stuck_at_maximum:
  assumes "next_ip iter < length h" and "last_ip iter < length h"
    and "length (h ! next_ip iter) = length (h ! last_ip iter)"
    and "be_val (h ! next_ip iter) \<le> be_val (h ! last_ip iter)"
    and "h ! next_ip iter = MaxIPv4 \<or> h ! next_ip iter = MaxIPv4In6
         \<or> h ! next_ip iter = MaxIPv6"
  shows "retrieve k h iter
           = Inr (replicate k (h ! next_ip iter, True), h @ replicate k (h ! next_ip iter))"
  using assms
proof (induction k arbitrary: h)
  case 0
  show ?case by simp
next
  case (Suc k)
  let ?c = "h ! next_ip iter"
  let ?h' = "h @ [?c]"
  have step: "ipRangeIterator_Next h iter = Inr ((length h, True), ?h')"
    using Suc.prems by (rule ipRangeIterator_Next_stuck)
  have c': "?h' ! next_ip iter = ?c" and l': "?h' ! last_ip iter = h ! last_ip iter"
    using Suc.prems(1,2) by (simp_all add: nth_append)
  have "retrieve k ?h' iter
          = Inr (replicate k (?h' ! next_ip iter, True), ?h' @ replicate k (?h' ! next_ip iter))"
    using Suc.prems by (intro Suc.IH) (simp_all only: c' l', simp_all)
  then show ?case by (simp add: step c')
qed

subsection \<open>Ranges that hold no maximum\<close>

text \<open>
  Where \<open>last\<close> is not all-0xFF and the IPv4-mapped maximum lies outside the range,
  the iterator built on \<open>first \<le> last\<close> returns the addresses from \<open>first\<close> to
  \<open>last\<close>, ascending by one, each once with the flag true, and false from then on.
\<close>

lemma cursor_not_maximum:
  assumes len: "length c = length l"
    and le: "be_val c \<le> be_val l"
    and lastnm: "l \<noteq> replicate (length l) 0xff"
    and mapped: "be_val l < be_val MaxIPv4In6 \<or> be_val MaxIPv4In6 < be_val c"
  shows "c \<noteq> replicate (length c) 0xff" and "c \<noteq> MaxIPv4In6"
proof -
  show "c \<noteq> replicate (length c) 0xff"
  proof
    assume "c = replicate (length c) 0xff"
    then have "be_val c + 1 = 256 ^ length l"
      using be_val_replicate_ff [of "length c"] len by simp
    with le be_val_less [of l] have "be_val l + 1 = 256 ^ length l" by simp
    with lastnm be_val_max show False by blast
  qed
  show "c \<noteq> MaxIPv4In6" using le mapped by auto
qed

lemma retrieve_ascending:
  assumes "next_ip iter < length h" and "last_ip iter < length h"
    and "next_ip iter \<noteq> last_ip iter"
    and "length (h ! next_ip iter) = length (h ! last_ip iter)"
    and "be_val (h ! next_ip iter) + d = be_val (h ! last_ip iter)"
    and "h ! last_ip iter \<noteq> replicate (length (h ! last_ip iter)) 0xff"
    and "be_val (h ! last_ip iter) < be_val MaxIPv4In6
         \<or> be_val MaxIPv4In6 < be_val (h ! next_ip iter)"
  shows "\<exists>out h'. retrieve (Suc d) h iter = Inr (out, h')
           \<and> map (\<lambda>(b, ok). (be_val b, ok)) out
               = map (\<lambda>v. (v, True)) [be_val (h ! next_ip iter) ..< Suc (be_val (h ! last_ip iter))]
           \<and> (\<forall>(b, ok) \<in> set out. length b = length (h ! last_ip iter))
           \<and> next_ip iter < length h' \<and> last_ip iter < length h'
           \<and> h' ! last_ip iter = h ! last_ip iter
           \<and> length (h' ! next_ip iter) = length (h ! last_ip iter)
           \<and> be_val (h' ! next_ip iter) = Suc (be_val (h ! last_ip iter))"
  using assms
proof (induction d arbitrary: h)
  case 0
  let ?c = "h ! next_ip iter"
  have le: "be_val ?c \<le> be_val (h ! last_ip iter)" using "0.prems"(5) by simp
  note nm = cursor_not_maximum [OF "0.prems"(4) le "0.prems"(6,7)]
  from ipRangeIterator_Next_advance [OF "0.prems"(1,2,4) le nm] obtain bs where
    step: "ipRangeIterator_Next h iter = Inr ((length h, True), (h @ [?c])[next_ip iter := bs])"
    and bs: "length bs = length ?c" "be_val bs = be_val ?c + 1"
    by blast
  let ?h1 = "(h @ [?c])[next_ip iter := bs]"
  have r: "retrieve (Suc 0) h iter = Inr ([(?c, True)], ?h1)"
    using "0.prems"(1) by (simp add: step nth_append)
  have post: "?h1 ! next_ip iter = bs" "?h1 ! last_ip iter = h ! last_ip iter"
    using "0.prems"(1,2,3) by (simp_all add: nth_append)
  show ?case
    unfolding r
    using "0.prems"(1,2,4,5) bs post
    by (intro exI conjI) (rule refl, simp_all)
next
  case (Suc d)
  let ?c = "h ! next_ip iter"
  have le: "be_val ?c \<le> be_val (h ! last_ip iter)" using Suc.prems(5) by simp
  note nm = cursor_not_maximum [OF Suc.prems(4) le Suc.prems(6,7)]
  from ipRangeIterator_Next_advance [OF Suc.prems(1,2,4) le nm] obtain bs where
    step: "ipRangeIterator_Next h iter = Inr ((length h, True), (h @ [?c])[next_ip iter := bs])"
    and bs: "length bs = length ?c" "be_val bs = be_val ?c + 1"
    by blast
  let ?h1 = "(h @ [?c])[next_ip iter := bs]"
  have post: "?h1 ! next_ip iter = bs" "?h1 ! last_ip iter = h ! last_ip iter"
    "?h1 ! length h = ?c"
    using Suc.prems(1,2,3) by (simp_all add: nth_append)
  have p1: "next_ip iter < length ?h1" and p2: "last_ip iter < length ?h1"
    using Suc.prems(1,2) by simp_all
  have p4: "length (?h1 ! next_ip iter) = length (?h1 ! last_ip iter)"
    using bs(1) Suc.prems(4) by (simp add: post)
  have p5: "be_val (?h1 ! next_ip iter) + d = be_val (?h1 ! last_ip iter)"
    using bs(2) Suc.prems(5) by (simp add: post)
  have p6: "?h1 ! last_ip iter \<noteq> replicate (length (?h1 ! last_ip iter)) 0xff"
    using Suc.prems(6) by (simp add: post)
  have p7: "be_val (?h1 ! last_ip iter) < be_val MaxIPv4In6
         \<or> be_val MaxIPv4In6 < be_val (?h1 ! next_ip iter)"
    using Suc.prems(7) bs(2) by (auto simp add: post)
  from Suc.IH [OF p1 p2 Suc.prems(3) p4 p5 p6 p7] obtain out h' where
    rest: "retrieve (Suc d) ?h1 iter = Inr (out, h')"
    and vals: "map (\<lambda>(b, ok). (be_val b, ok)) out
               = map (\<lambda>v. (v, True)) [be_val bs ..< Suc (be_val (h ! last_ip iter))]"
    and lens: "\<forall>(b, ok) \<in> set out. length b = length (h ! last_ip iter)"
    and fin: "next_ip iter < length h'" "last_ip iter < length h'"
      "h' ! last_ip iter = h ! last_ip iter"
      "length (h' ! next_ip iter) = length (h ! last_ip iter)"
      "be_val (h' ! next_ip iter) = Suc (be_val (h ! last_ip iter))"
    unfolding post by blast
  have r: "retrieve (Suc (Suc d)) h iter = Inr ((?c, True) # out, h')"
    by (subst retrieve.simps(2)) (simp add: step rest post(3) del: retrieve.simps)
  have upt: "[be_val ?c ..< Suc (be_val (h ! last_ip iter))]
               = be_val ?c # [be_val bs ..< Suc (be_val (h ! last_ip iter))]"
    using le bs(2) by (simp add: upt_conv_Cons)
  show ?case
    unfolding r
    using vals lens fin Suc.prems(4)
    by (intro exI conjI) (rule refl, simp_all add: upt del: upt_Suc)
qed

lemma retrieve_add:
  "retrieve (j + k) h iter =
     (case retrieve j h iter of
        Inl e \<Rightarrow> Inl e
      | Inr (out, h') \<Rightarrow>
          (case retrieve k h' iter of
             Inl e \<Rightarrow> Inl e
           | Inr (out', h'') \<Rightarrow> Inr (out @ out', h'')))"
  by (induction j arbitrary: h) (auto split: sum.splits prod.splits)

lemma iterator_yields_range:
  assumes first: "first < length h" and last: "last' < length h"
    and len: "length (h ! first) = length (h ! last')"
    and le: "be_val (h ! first) \<le> be_val (h ! last')"
    and lastnm: "h ! last' \<noteq> replicate (length (h ! last')) 0xff"
    and mapped: "be_val (h ! last') < be_val MaxIPv4In6 \<or> be_val MaxIPv4In6 < be_val (h ! first)"
  shows "case GetIPRangeIterator h first last' of
           (iter, h0) \<Rightarrow>
             \<exists>out past h1.
               retrieve (Suc (be_val (h ! last') - be_val (h ! first)) + k) h0 iter
                 = Inr (out @ replicate k (past, False), h1)
             \<and> map (\<lambda>(b, ok). (be_val b, ok)) out
                 = map (\<lambda>v. (v, True)) [be_val (h ! first) ..< Suc (be_val (h ! last'))]
             \<and> (\<forall>(b, ok) \<in> set out. length b = length (h ! last'))"
proof -
  let ?iter = "\<lparr>first_ip = first, last_ip = last', next_ip = length h\<rparr>"
  let ?h0 = "h @ [h ! first]"
  let ?d = "be_val (h ! last') - be_val (h ! first)"
  have cells: "?h0 ! length h = h ! first" "?h0 ! last' = h ! last'"
    using last by (simp_all add: nth_append)
  have q1: "next_ip ?iter < length ?h0" and q2: "last_ip ?iter < length ?h0"
    and q3: "next_ip ?iter \<noteq> last_ip ?iter"
    using last by simp_all
  have q4: "length (?h0 ! next_ip ?iter) = length (?h0 ! last_ip ?iter)"
    using len by (simp add: cells)
  have q5: "be_val (?h0 ! next_ip ?iter) + ?d = be_val (?h0 ! last_ip ?iter)"
    using le by (simp add: cells)
  have q6: "?h0 ! last_ip ?iter \<noteq> replicate (length (?h0 ! last_ip ?iter)) 0xff"
    using lastnm by (simp add: cells)
  have q7: "be_val (?h0 ! last_ip ?iter) < be_val MaxIPv4In6
         \<or> be_val MaxIPv4In6 < be_val (?h0 ! next_ip ?iter)"
    using mapped by (simp add: cells)
  from retrieve_ascending [OF q1 q2 q3 q4 q5 q6 q7] obtain out h' where
    asc: "retrieve (Suc ?d) ?h0 ?iter = Inr (out, h')"
    and vals: "map (\<lambda>(b, ok). (be_val b, ok)) out
               = map (\<lambda>v. (v, True)) [be_val (h ! first) ..< Suc (be_val (h ! last'))]"
    and lens: "\<forall>(b, ok) \<in> set out. length b = length (h ! last')"
    and fin: "next_ip ?iter < length h'" "last_ip ?iter < length h'"
      "h' ! last_ip ?iter = h ! last'"
      "length (h' ! next_ip ?iter) = length (h ! last')"
      "be_val (h' ! next_ip ?iter) = Suc (be_val (h ! last'))"
    by (simp add: cells) blast
  have "CompareIPs h' (next_ip ?iter) (last_ip ?iter)
          = (bytes_Compare (h' ! next_ip ?iter) (h' ! last_ip ?iter), None)"
    using fin(3,4) by (intro CompareIPs_same_width) simp
  moreover have "bytes_Compare (h' ! next_ip ?iter) (h' ! last_ip ?iter) = 1"
    using fin(3,4,5) by (subst bytes_Compare_be_val) simp_all
  ultimately have ex: "\<not> (snd (CompareIPs h' (next_ip ?iter) (last_ip ?iter)) = None
             \<and> fst (CompareIPs h' (next_ip ?iter) (last_ip ?iter)) \<le> 0)"
    by simp
  have "retrieve (Suc ?d + k) ?h0 ?iter
          = Inr (out @ replicate k (h' ! next_ip ?iter, False),
                 h' @ replicate k (h' ! next_ip ?iter))"
    by (simp only: retrieve_add [of "Suc ?d" k] asc retrieve_exhausted [OF fin(1,2) ex]
        sum.case prod.case)
  with vals lens show ?thesis
    using first by (simp only: GetIPRangeIterator_eq prod.case) blast
qed

subsection \<open>Ranges that reach a maximum\<close>

text \<open>
  Claim C2 (fails on the code). The range from 255.255.255.254 to 255.255.255.255:
  the first two retrievals return the two addresses with the flag true; \<open>Next\<close> then
  refuses to advance the cursor beyond the maximum and the iterator drops that answer,
  so the third and the fourth retrieval return 255.255.255.255 with the flag true again,
  where the claim has the flag false after the upper bound is returned.
\<close>

theorem iterator_repeats_at_MaxIPv4:
  "(case GetIPRangeIterator [[255, 255, 255, 254], [255, 255, 255, 255]] 0 1 of
      (iter, h) \<Rightarrow> map_sum id fst (retrieve 4 h iter))
    = Inr [([255, 255, 255, 254], True), ([255, 255, 255, 255], True),
           ([255, 255, 255, 255], True), ([255, 255, 255, 255], True)]"
  by code_simp

text \<open>
  Claim C3 (fails on the code). The one-address range from 255.255.255.255 to
  255.255.255.255: the second retrieval returns the same address with the flag true a
  second time, where the claim has no position returned with true more than once.
\<close>

theorem iterator_single_max_emitted_twice:
  "(case GetIPRangeIterator [[255, 255, 255, 255]] 0 0 of
      (iter, h) \<Rightarrow> map_sum id fst (retrieve 2 h iter))
    = Inr [([255, 255, 255, 255], True), ([255, 255, 255, 255], True)]"
  by code_simp

end
